theory Spec2Isabelle
  imports Complex_Main "HOL-Library.Word" "HOL-Library.Monad_Syntax" "HOL-Library.Log_Nat"
begin

unbundle bit_operations_syntax

chapter \<open>CryptoNight (variants 0, 1, 2): the Go function \<open>Cache.Sum\<close>\<close>

text \<open>
  A shallow embedding of \<open>Cache.Sum\<close> and \<open>Sum\<close> of package \<open>cryptonight\<close>.
  Unsigned machine integers are words (\<open>+\<close> wraps, \<open>div\<close> is unsigned division).
  A run-time panic of Go (index out of range, slice bounds out of range, integer division
  by zero) is the value \<open>None\<close> of the option monad; every indexing and slicing of the
  source is a checked operation of the model.  The unsafe pointer casts of the source
  (\<open>U64_U8\<close>, \<open>U64_U32\<close>, \<open>U64_U16_LEN8\<close>) are read on a little-endian host, the
  only layout on which the package produces the reference digests.
\<close>

section \<open>Machine integers and Go slices\<close>

type_synonym u8 = "8 word"
type_synonym u16 = "16 word"
type_synonym u32 = "32 word"
type_synonym u64 = "64 word"

text \<open>
  A Go slice of bytes: \<open>elems\<close> is the backing array from the first element of the slice up
  to its capacity, \<open>slice_len\<close> is \<open>len\<close>.  Only the first \<open>slice_len\<close> elements are the
  contents of the slice; the others are reachable by re-slicing.
\<close>

record slice =
  elems :: "u8 list"
  slice_len :: nat

definition cap :: "slice \<Rightarrow> nat" where
  "cap s = length (elems s)"

definition slice_wf :: "slice \<Rightarrow> bool" where
  "slice_wf s = (slice_len s \<le> cap s)"

definition bytes_of :: "slice \<Rightarrow> u8 list" where
  "bytes_of s = take (slice_len s) (elems s)"

text \<open>
  The slice expression \<open>s[lo:hi]\<close> on a slice.  The Go specification bounds the upper index
  of a slice of a slice by the capacity, not by the length: the expression panics only
  when \<open>lo \<le> hi \<le> cap s\<close> fails.
\<close>

definition slice_expr :: "slice \<Rightarrow> nat \<Rightarrow> nat \<Rightarrow> slice option" where
  "slice_expr s lo hi =
     (if lo \<le> hi \<and> hi \<le> cap s
      then Some \<lparr>elems = drop lo (elems s), slice_len = hi - lo\<rparr>
      else None)"

definition le_u64 :: "u8 list \<Rightarrow> u64" where
  "le_u64 bs = foldr (\<lambda>x acc. ucast x OR push_bit 8 acc) bs 0"

text \<open>\<open>binary.LittleEndian.Uint64(b)\<close>: a bounds check on \<open>b[7]\<close>, then the eight bytes.\<close>

definition LittleEndian_Uint64 :: "slice \<Rightarrow> u64 option" where
  "LittleEndian_Uint64 s =
     (if 7 < slice_len s then Some (le_u64 (take 8 (elems s))) else None)"

text \<open>Index expressions and assignments on arrays and slices of words.\<close>

definition index :: "'a list \<Rightarrow> nat \<Rightarrow> 'a option" where
  "index xs i = (if i < length xs then Some (xs ! i) else None)"

definition assign :: "'a list \<Rightarrow> nat \<Rightarrow> 'a \<Rightarrow> 'a list option" where
  "assign xs i v = (if i < length xs then Some (xs[i := v]) else None)"

text \<open>\<open>xs[lo:hi]\<close> on an array: the values of the addressed window.\<close>

definition window :: "'a list \<Rightarrow> nat \<Rightarrow> nat \<Rightarrow> 'a list option" where
  "window xs lo hi =
     (if lo \<le> hi \<and> hi \<le> length xs then Some (take (hi - lo) (drop lo xs)) else None)"

text \<open>
  \<open>copy(xs[i:], src)\<close>: the slice expression panics when \<open>i\<close> exceeds the length; \<open>copy\<close>
  moves \<open>min (len dst) (len src)\<close> elements.
\<close>

definition copy_at :: "'a list \<Rightarrow> nat \<Rightarrow> 'a list \<Rightarrow> 'a list option" where
  "copy_at xs i src =
     (if i \<le> length xs
      then (let n = min (length xs - i) (length src)
            in Some (take i xs @ take n src @ drop (i + n) xs))
      else None)"

text \<open>
  The 16 bytes at \<open>xs[j:]\<close> that the AES primitives read as \<open>src\<close> and write as \<open>dst\<close>
  (``dst and src must be at least 16 bytes long'').
\<close>

definition load128 :: "u64 list \<Rightarrow> nat \<Rightarrow> (u64 \<times> u64) option" where
  "load128 xs j = (if j + 1 < length xs then Some (xs ! j, xs ! (j + 1)) else None)"

definition store128 :: "u64 list \<Rightarrow> nat \<Rightarrow> u64 \<times> u64 \<Rightarrow> u64 list option" where
  "store128 xs j d =
     (if j + 1 < length xs then Some (xs[j := fst d, j + 1 := snd d]) else None)"

section \<open>The reinterpreting macros\<close>

text \<open>\<open>U64_U32(a, 0, 2)\<close>: the two words of \<open>a\<close> as four 32-bit words.\<close>

definition U64_U32 :: "u64 \<times> u64 \<Rightarrow> u32 list" where
  "U64_U32 a =
     [ucast (fst a), ucast (drop_bit 32 (fst a)), ucast (snd a), ucast (drop_bit 32 (snd a))]"

definition u64_bytes :: "u64 \<Rightarrow> u8 list" where
  "u64_bytes w = map (\<lambda>k. ucast (drop_bit (8 * k) w)) [0..<8]"

text \<open>\<open>U64_U8(a, lo, hi)[:]\<close>: the bytes of the lanes \<open>lo \<le> i < hi\<close>.\<close>

definition U64_U8 :: "(nat \<Rightarrow> u64) \<Rightarrow> nat \<Rightarrow> nat \<Rightarrow> u8 list" where
  "U64_U8 a lo hi = concat (map (\<lambda>i. u64_bytes (a i)) [lo..<hi])"

definition u64_lanes :: "u64 \<Rightarrow> u16 list" where
  "u64_lanes w = [ucast w, ucast (drop_bit 16 w), ucast (drop_bit 32 w), ucast (drop_bit 48 w)]"

definition lanes_u64 :: "u16 list \<Rightarrow> u64" where
  "lanes_u64 ls =
     ucast (ls ! 0) OR push_bit 16 (ucast (ls ! 1)) OR
     push_bit 32 (ucast (ls ! 2)) OR push_bit 48 (ucast (ls ! 3))"

text \<open>
  \<open>U64_U16_LEN8(a, i)\<close> is a pointer to the eight 16-bit lanes of the words \<open>a[i]\<close> and
  \<open>a[i+1]\<close>.  Reading through it gives the lanes; writing through it replaces both words.
  Taking the address \<open>&a[i]\<close> is bounds-checked; the cast covers \<open>a[i+1]\<close> as well.
\<close>

definition U64_U16_LEN8 :: "u64 list \<Rightarrow> u64 \<Rightarrow> u16 list option" where
  "U64_U16_LEN8 xs i =
     (if unat i + 1 < length xs
      then Some (u64_lanes (xs ! unat i) @ u64_lanes (xs ! (unat i + 1)))
      else None)"

definition U64_U16_LEN8_write :: "u64 list \<Rightarrow> u64 \<Rightarrow> u16 list \<Rightarrow> u64 list option" where
  "U64_U16_LEN8_write xs i ls =
     (if unat i + 1 < length xs
      then Some (xs[unat i := lanes_u64 (take 4 ls), unat i + 1 := lanes_u64 (drop 4 ls)])
      else None)"

definition TO_ADDR :: "u64 \<Rightarrow> u64" where
  "TO_ADDR a0 = drop_bit 3 (a0 AND 0x1ffff0)"

text \<open>
  \<open>VARIANT2_SHUFFLE()\<close>.  The tuple assignment of Go evaluates the 24 operands on the right
  first and then assigns left to right: all lanes are read from \<open>xs\<close>, then the three
  chunks are written in the order \<open>chunk0\<close>, \<open>chunk1\<close>, \<open>chunk2\<close>.
\<close>

definition VARIANT2_SHUFFLE :: "u64 list \<Rightarrow> u64 \<Rightarrow> u64 list option" where
  "VARIANT2_SHUFFLE xs addr = do {
     chunk0 \<leftarrow> U64_U16_LEN8 xs (addr XOR 0x02);
     chunk1 \<leftarrow> U64_U16_LEN8 xs (addr XOR 0x04);
     chunk2 \<leftarrow> U64_U16_LEN8 xs (addr XOR 0x06);
     let new0 = [chunk2 ! 2, chunk2 ! 6, chunk2 ! 3, chunk2 ! 7,
                 chunk2 ! 0, chunk2 ! 1, chunk2 ! 4, chunk2 ! 5];
     let new1 = [chunk0 ! 2, chunk0 ! 5, chunk0 ! 3, chunk0 ! 4,
                 chunk0 ! 6, chunk0 ! 7, chunk0 ! 0, chunk0 ! 1];
     let new2 = [chunk1 ! 1, chunk1 ! 5, chunk1 ! 0, chunk1 ! 4,
                 chunk1 ! 2, chunk1 ! 3, chunk1 ! 6, chunk1 ! 7];
     xs1 \<leftarrow> U64_U16_LEN8_write xs (addr XOR 0x02) new0;
     xs2 \<leftarrow> U64_U16_LEN8_write xs1 (addr XOR 0x04) new1;
     U64_U16_LEN8_write xs2 (addr XOR 0x06) new2
   }"

section \<open>Double precision, as far as the variant-2 square root uses it\<close>

text \<open>
  \<open>F64 m e\<close> is the non-negative finite double of value \<open>m * 2 ^ e\<close>.  The three Go
  operations of \<open>uint64(math.Sqrt(float64(x)))\<close> follow IEEE 754: the conversion of an
  integer rounds to 53 significant bits, to nearest and ties to even; the square root is
  the correctly rounded one (a square root is never a tie); the conversion back discards
  the fraction.
\<close>

datatype f64 = F64 nat int

function sqrt_bisect :: "nat \<Rightarrow> nat \<Rightarrow> nat \<Rightarrow> nat" where
  "sqrt_bisect n lo hi =
     (if hi \<le> Suc lo then lo
      else (let mid = (lo + hi) div 2
            in if mid * mid \<le> n then sqrt_bisect n mid hi else sqrt_bisect n lo mid))"
  by pat_completeness auto
termination
  by (relation "measure (\<lambda>(n, lo, hi). hi - lo)") auto

text \<open>The integer square root: the largest \<open>r\<close> with \<open>r * r \<le> n\<close>.\<close>

definition isqrt :: "nat \<Rightarrow> nat" where
  "isqrt n = sqrt_bisect n 0 (Suc n)"

definition float64_of_uint64 :: "u64 \<Rightarrow> f64" where
  "float64_of_uint64 x =
     (let n = unat x; l = floorlog 2 n
      in if l \<le> 53 then F64 n 0
         else (let s = l - 53; q = n div 2 ^ s; r = n mod 2 ^ s; h = 2 ^ (s - 1)
               in F64 (if h < r \<or> (r = h \<and> odd q) then q + 1 else q) (int s)))"

fun math_Sqrt :: "f64 \<Rightarrow> f64" where
  "math_Sqrt (F64 m e) =
     (if m = 0 then F64 0 0
      else (let m2 = (if even e then m else 2 * m);
                e2 = (if even e then e else e - 1);
                k = 53 - floorlog 2 (isqrt m2);
                s = isqrt (m2 * 4 ^ k)
            in F64 (if s < m2 * 4 ^ k - s * s then s + 1 else s) (e2 div 2 - int k)))"

fun uint64_of_float64 :: "f64 \<Rightarrow> u64" where
  "uint64_of_float64 (F64 m e) =
     word_of_nat (if 0 \<le> e then m * 2 ^ nat e else m div 2 ^ nat (- e))"

section \<open>The primitives of other packages\<close>

text \<open>
  The Keccak and AES primitives, the 64-bit multiplication and the four finalist hashes
  are parameters of the model.  \<open>CnExpandKey\<close> writes the round keys into a buffer it is
  handed; \<open>CnRounds\<close> and \<open>CnSingleRound\<close> read 16 bytes of \<open>src\<close> and write 16 bytes of
  \<open>dst\<close>; \<open>byteMul\<close> writes both words of \<open>product\<close>; a finalist is the digest of the
  bytes written to a fresh hasher.  The array \<open>[25]uint64\<close> of the Keccak state is a
  function of the lane index: the source reads and writes lanes 0 to 24 only, all at
  constant indices.
\<close>

text \<open>
  Modelled from the spec: \<open>sha3.Keccak1600State\<close> is missing from the sources at hand.
  Following the specification (``\<open>absorb(input) \<rightarrow> state[25]\<close>'', ``\<open>final_state\<close> fully
  overwritten at the start of every hash call'') the field \<open>Keccak1600State\<close> gives the
  new state as a function of the input bytes alone.
\<close>

record prims =
  Keccak1600State :: "u8 list \<Rightarrow> nat \<Rightarrow> u64"
  Keccak1600Permute :: "(nat \<Rightarrow> u64) \<Rightarrow> nat \<Rightarrow> u64"
  CnExpandKey :: "u64 list \<Rightarrow> u32 list \<Rightarrow> u32 list"
  CnRounds :: "u64 \<times> u64 \<Rightarrow> u32 list \<Rightarrow> u64 \<times> u64"
  CnSingleRound :: "u64 \<times> u64 \<Rightarrow> u32 list \<Rightarrow> u64 \<times> u64"
  byteMul :: "u64 \<Rightarrow> u64 \<Rightarrow> u64 \<times> u64"
  blake256 :: "u8 list \<Rightarrow> u8 list"
  groestl256 :: "u8 list \<Rightarrow> u8 list"
  jh256 :: "u8 list \<Rightarrow> u8 list"
  skein256 :: "u8 list \<Rightarrow> u8 list"

section \<open>The cache and the scratchpad initialisation\<close>

record cache =
  finalState :: "nat \<Rightarrow> u64"
  scratchpad :: "u64 list"

text \<open>The array type \<open>[2 * 1024 * 1024 / 8]uint64\<close> of the scratchpad fixes its length.\<close>

definition cache_ok :: "cache \<Rightarrow> bool" where
  "cache_ok c = (length (scratchpad c) = 262144)"

text \<open>\<open>new(Cache)\<close>: the zero value.\<close>

definition zero_cache :: cache where
  "zero_cache = \<lparr>finalState = (\<lambda>i. 0), scratchpad = replicate 262144 0\<rparr>"

text \<open>\<open>aes.CnRounds(xs[j:], xs[j:], rkeys)\<close>, in place.\<close>

definition rounds_at :: "prims \<Rightarrow> u32 list \<Rightarrow> u64 list \<Rightarrow> nat \<Rightarrow> u64 list option" where
  "rounds_at P rkeys xs j = do {
     src \<leftarrow> load128 xs j;
     store128 xs j (CnRounds P src rkeys)
   }"

function init_blocks :: "prims \<Rightarrow> u32 list \<Rightarrow> u64 list \<Rightarrow> nat \<Rightarrow> u64 list option" where
  "init_blocks P rkeys blocks j =
     (if j < 16
      then do {
        blocks' \<leftarrow> rounds_at P rkeys blocks j;
        init_blocks P rkeys blocks' (j + 2)
      }
      else Some blocks)"
  by pat_completeness auto
termination
  by (relation "measure (\<lambda>(P, rkeys, blocks, j). 16 - j)") auto

declare init_blocks.simps [simp del]

function scratchpad_init ::
  "prims \<Rightarrow> u32 list \<Rightarrow> u64 list \<Rightarrow> u64 list \<Rightarrow> nat \<Rightarrow> (u64 list \<times> u64 list) option" where
  "scratchpad_init P rkeys blocks xs i =
     (if i < 262144
      then do {
        blocks' \<leftarrow> init_blocks P rkeys blocks 0;
        xs' \<leftarrow> copy_at xs i blocks';
        scratchpad_init P rkeys blocks' xs' (i + 16)
      }
      else Some (blocks, xs))"
  by pat_completeness auto
termination
  by (relation "measure (\<lambda>(P, rkeys, blocks, xs, i). 262144 - i)") auto

declare scratchpad_init.simps [simp del]

section \<open>The memory-hard loop\<close>

text \<open>
  The variables that live across iterations.  \<open>c\<close>, \<open>product\<close>, \<open>addr\<close>, \<open>t\<close>,
  \<open>dividend\<close> and \<open>divisor\<close> are written in every iteration before they are read.
\<close>

record memhard =
  reg_a :: "u64 \<times> u64"
  reg_b :: "u64 \<times> u64"
  divisionResult :: u64
  sqrtResult :: u64
  pad :: "u64 list"

text \<open>\<open>((^t)&1)<<4 | (((^t)&1)<<4&t)<<1 | (t&32)>>1\<close>: in Go \<open><<\<close>, \<open>>>\<close> and \<open>&\<close>
  share one precedence level, above \<open>|\<close>, and associate to the left.\<close>

definition tweak_bits :: "u64 \<Rightarrow> u64" where
  "tweak_bits t =
     push_bit 4 (NOT t AND 1) OR push_bit 1 (push_bit 4 (NOT t AND 1) AND t) OR
     drop_bit 1 (t AND 32)"

definition variant1_tweak :: "u64 list \<Rightarrow> u64 \<Rightarrow> u64 list option" where
  "variant1_tweak xs addr = do {
     w \<leftarrow> index xs (unat (addr + 1));
     let t = drop_bit 24 w;
     let t = tweak_bits t;
     w \<leftarrow> index xs (unat (addr + 1));
     assign xs (unat (addr + 1)) (w XOR push_bit 24 t)
   }"

text \<open>The variant-2 arithmetic; the integer division of Go panics on a zero divisor.\<close>

definition variant2_arith ::
  "u64 \<times> u64 \<Rightarrow> u64 \<times> u64 \<Rightarrow> u64 \<Rightarrow> u64 \<Rightarrow> ((u64 \<times> u64) \<times> u64 \<times> u64) option" where
  "variant2_arith b c dr sr =
     (let c1 = snd c XOR (dr XOR sr);
          dividend = snd b;
          divisor = (fst b AND 0xffffffff) OR 0x80000001
      in if divisor = 0 then None
         else (let dr' = ((dividend div divisor) AND 0xffffffff) OR
                         push_bit 32 (dividend mod divisor);
                   sr' = uint64_of_float64
                           (math_Sqrt (float64_of_uint64 (drop_bit 16 (fst b + dr'))))
               in Some ((fst c, c1), dr', sr')))"

definition memhard_iter :: "prims \<Rightarrow> int \<Rightarrow> u64 \<Rightarrow> memhard \<Rightarrow> memhard option" where
  "memhard_iter P variant tweak st = do {
     let a = reg_a st;
     let b = reg_b st;
     let addr = TO_ADDR (fst a);
     src \<leftarrow> load128 (pad st) (unat addr);
     let c = CnSingleRound P src (U64_U32 a);
     xs \<leftarrow> (if variant = 2 then VARIANT2_SHUFFLE (pad st) addr else Some (pad st));
     xs \<leftarrow> assign xs (unat addr) (fst b XOR fst c);
     xs \<leftarrow> assign xs (unat (addr + 1)) (snd b XOR snd c);
     let b = c;
     xs \<leftarrow> (if variant = 1 then variant1_tweak xs addr else Some xs);
     let addr = TO_ADDR (fst b);
     c0 \<leftarrow> index xs (unat addr);
     c1 \<leftarrow> index xs (unat (addr + 1));
     (c, dr, sr) \<leftarrow>
       (if variant = 2 then variant2_arith b (c0, c1) (divisionResult st) (sqrtResult st)
        else Some ((c0, c1), divisionResult st, sqrtResult st));
     let product = byteMul P (fst b) (fst c);
     xs \<leftarrow> (if variant = 2 then VARIANT2_SHUFFLE xs addr else Some xs);
     let a = (fst a + fst product, snd a + snd product);
     xs \<leftarrow> assign xs (unat addr) (fst a);
     xs \<leftarrow> assign xs (unat (addr + 1)) (snd a);
     let a = (fst a XOR fst c, snd a XOR snd c);
     xs \<leftarrow> (if variant = 1
            then do {
              w \<leftarrow> index xs (unat (addr + 1));
              assign xs (unat (addr + 1)) (w XOR tweak)
            }
            else Some xs);
     Some \<lparr>reg_a = a, reg_b = b, divisionResult = dr, sqrtResult = sr, pad = xs\<rparr>
   }"

function memhard_loop :: "prims \<Rightarrow> int \<Rightarrow> u64 \<Rightarrow> nat \<Rightarrow> memhard \<Rightarrow> memhard option" where
  "memhard_loop P variant tweak i st =
     (if i < 524288
      then do {
        st' \<leftarrow> memhard_iter P variant tweak st;
        memhard_loop P variant tweak (i + 1) st'
      }
      else Some st)"
  by pat_completeness auto
termination
  by (relation "measure (\<lambda>(P, variant, tweak, i, st). 524288 - i)") auto

declare memhard_loop.simps [simp del]

section \<open>Finalisation\<close>

definition final_step ::
  "prims \<Rightarrow> u32 list \<Rightarrow> u64 list \<Rightarrow> u64 list \<Rightarrow> nat \<Rightarrow> nat \<Rightarrow> u64 list option" where
  "final_step P rkeys blocks xs i j = do {
     w \<leftarrow> index xs (i + j);
     x \<leftarrow> index blocks j;
     xs \<leftarrow> assign xs (i + j) (w XOR x);
     w \<leftarrow> index xs (i + j + 1);
     x \<leftarrow> index blocks (j + 1);
     xs \<leftarrow> assign xs (i + j + 1) (w XOR x);
     rounds_at P rkeys xs (i + j)
   }"

function final_chunk ::
  "prims \<Rightarrow> u32 list \<Rightarrow> u64 list \<Rightarrow> u64 list \<Rightarrow> nat \<Rightarrow> nat \<Rightarrow> u64 list option" where
  "final_chunk P rkeys blocks xs i j =
     (if j < 16
      then do {
        xs' \<leftarrow> final_step P rkeys blocks xs i j;
        final_chunk P rkeys blocks xs' i (j + 2)
      }
      else Some xs)"
  by pat_completeness auto
termination
  by (relation "measure (\<lambda>(P, rkeys, blocks, xs, i, j). 16 - j)") auto

declare final_chunk.simps [simp del]

text \<open>
  \<open>blocks\<close> is a slice: first of \<open>finalState[8:24]\<close>, then of the chunk just processed.
  The chunk it aliases is not written while it is read (the next iteration writes the next
  chunk), so the model hands its values on.
\<close>

function final_loop ::
  "prims \<Rightarrow> u32 list \<Rightarrow> u64 list \<Rightarrow> u64 list \<Rightarrow> nat \<Rightarrow> (u64 list \<times> u64 list) option" where
  "final_loop P rkeys blocks xs i =
     (if i < 262144
      then do {
        xs' \<leftarrow> final_chunk P rkeys blocks xs i 0;
        blocks' \<leftarrow> window xs' i (i + 16);
        final_loop P rkeys blocks' xs' (i + 16)
      }
      else Some (blocks, xs))"
  by pat_completeness auto
termination
  by (relation "measure (\<lambda>(P, rkeys, blocks, xs, i). 262144 - i)") auto

declare final_loop.simps [simp del]

text \<open>\<open>copy(a[lo:hi], src)\<close> on the lanes of the Keccak state.\<close>

definition copy_lanes :: "(nat \<Rightarrow> u64) \<Rightarrow> nat \<Rightarrow> nat \<Rightarrow> u64 list \<Rightarrow> nat \<Rightarrow> u64" where
  "copy_lanes a lo hi src =
     (\<lambda>n. if lo \<le> n \<and> n < hi \<and> n - lo < length src then src ! (n - lo) else a n)"

text \<open>The \<open>switch\<close> on \<open>finalState[0] & 0x03\<close>.\<close>

definition finalist :: "prims \<Rightarrow> u64 \<Rightarrow> u8 list \<Rightarrow> u8 list" where
  "finalist P sel =
     (if sel = 0x00 then blake256 P
      else if sel = 0x01 then groestl256 P
      else if sel = 0x02 then jh256 P
      else skein256 P)"

section \<open>\<open>Cache.Sum\<close> and \<open>Sum\<close>\<close>

definition variant1_init :: "(nat \<Rightarrow> u64) \<Rightarrow> slice \<Rightarrow> u64 option" where
  "variant1_init fs data = do {
     s \<leftarrow> slice_expr data 35 43;
     w \<leftarrow> LittleEndian_Uint64 s;
     Some (fs 24 XOR w)
   }"

definition Cache_Sum :: "prims \<Rightarrow> cache \<Rightarrow> slice \<Rightarrow> int \<Rightarrow> (u8 list \<times> cache) option" where
  "Cache_Sum P cache data variant = do {
     let fs = Keccak1600State P (bytes_of data);
     tweak \<leftarrow> (if variant = 1 then variant1_init fs data else Some 0);
     let key = map fs [0..<4];
     let rkeys = CnExpandKey P key (replicate 40 0);
     let blocks = map fs [8..<24];
     (blocks, xs) \<leftarrow> scratchpad_init P rkeys blocks (scratchpad cache) 0;
     let a = (fs 0 XOR fs 4, fs 1 XOR fs 5);
     let b = (fs 2 XOR fs 6, fs 3 XOR fs 7);
     st \<leftarrow> memhard_loop P variant tweak 0
             \<lparr>reg_a = a, reg_b = b, divisionResult = 0, sqrtResult = 0, pad = xs\<rparr>;
     let key = map fs [4..<8];
     let rkeys = CnExpandKey P key rkeys;
     let blocks = map fs [8..<24];
     (blocks, xs) \<leftarrow> final_loop P rkeys blocks (pad st) 0;
     let fs = copy_lanes fs 8 24 blocks;
     let fs = Keccak1600Permute P fs;
     let h = finalist P (fs 0 AND 0x03);
     Some (h (U64_U8 fs 0 25), \<lparr>finalState = fs, scratchpad = xs\<rparr>)
   }"

definition Sum :: "prims \<Rightarrow> slice \<Rightarrow> int \<Rightarrow> u8 list option" where
  "Sum P data variant = map_option fst (Cache_Sum P zero_cache data variant)"

section \<open>Notions of the specification\<close>

text \<open>
  The 24 half-words \<open>chunk0 || chunk1 || chunk2\<close> of the three cells a shuffle at \<open>addr\<close>
  touches, the permutation table of the macro's comment, and the six words the cells occupy.
\<close>

definition cell_lanes :: "u64 list \<Rightarrow> u64 \<Rightarrow> u16 list" where
  "cell_lanes xs i = u64_lanes (xs ! unat i) @ u64_lanes (xs ! (unat i + 1))"

definition chunks24 :: "u64 list \<Rightarrow> u64 \<Rightarrow> u16 list" where
  "chunks24 xs addr =
     cell_lanes xs (addr XOR 0x02) @ cell_lanes xs (addr XOR 0x04) @ cell_lanes xs (addr XOR 0x06)"

definition v2_table :: "nat list" where
  "v2_table = [18, 22, 19, 23, 16, 17, 20, 21, 2, 5, 3, 4, 6, 7, 0, 1,
               9, 13, 8, 12, 10, 11, 14, 15]"

definition chunk_words :: "u64 \<Rightarrow> nat set" where
  "chunk_words addr =
     {unat (addr XOR 0x02), Suc (unat (addr XOR 0x02)), unat (addr XOR 0x04),
      Suc (unat (addr XOR 0x04)), unat (addr XOR 0x06), Suc (unat (addr XOR 0x06))}"

text \<open>A valid call: a variant in \<open>{0, 1, 2}\<close>, and at least 43 bytes for variant 1.\<close>

definition valid_call :: "slice \<Rightarrow> int \<Rightarrow> bool" where
  "valid_call data variant =
     (slice_wf data \<and> variant \<in> {0, 1, 2} \<and> (variant = 1 \<longrightarrow> 43 \<le> slice_len data))"

text \<open>
  Modelled from the spec: the finalist hashes are not part of the sources at hand; the
  specification treats them as ``black-box 32-byte hashers consuming the 200-byte Keccak
  state''.
\<close>

definition finalists_32 :: "prims \<Rightarrow> bool" where
  "finalists_32 P =
     (\<forall>x. length (blake256 P x) = 32 \<and> length (groestl256 P x) = 32 \<and>
          length (jh256 P x) = 32 \<and> length (skein256 P x) = 32)"

text \<open>An instance of the parameters, to instantiate statements that assume something of them.\<close>

definition null_prims :: prims where
  "null_prims =
     \<lparr>Keccak1600State = (\<lambda>bs i. 0), Keccak1600Permute = (\<lambda>a. a),
      CnExpandKey = (\<lambda>key rkeys. rkeys), CnRounds = (\<lambda>src rkeys. src),
      CnSingleRound = (\<lambda>src rkey. src), byteMul = (\<lambda>x y. (0, 0)),
      blake256 = (\<lambda>bs. replicate 32 0), groestl256 = (\<lambda>bs. replicate 32 0),
      jh256 = (\<lambda>bs. replicate 32 0), skein256 = (\<lambda>bs. replicate 32 0)\<rparr>"

section \<open>Addresses and lanes\<close>

lemma u64_lanes_lanes_u64:
  "u64_lanes (lanes_u64 [l0, l1, l2, l3]) = [l0, l1, l2, l3]"
  unfolding u64_lanes_def lanes_u64_def
  apply simp
  apply (intro conjI)
     apply (rule bit_word_eqI, auto simp add: bit_simps dest: bit_imp_le_length)+
  done

lemma length_u64_lanes: "length (u64_lanes w) = 4"
  by (simp add: u64_lanes_def)

lemma upd6:
  fixes xs :: "u64 list" and a0 a1 b0 b1 c0 c1 :: u64
  assumes "even i" "even j" "even k" "i \<noteq> j" "i \<noteq> k" "j \<noteq> k"
      and "Suc i < length xs" "Suc j < length xs" "Suc k < length xs"
  defines "ys \<equiv> xs[i := a0, Suc i := a1, j := b0, Suc j := b1, k := c0, Suc k := c1]"
  shows "ys ! i = a0" "ys ! Suc i = a1" "ys ! j = b0" "ys ! Suc j = b1"
        "ys ! k = c0" "ys ! Suc k = c1"
        "n \<notin> {i, Suc i, j, Suc j, k, Suc k} \<Longrightarrow> ys ! n = xs ! n"
proof -
  have ne: "i \<noteq> Suc j" "i \<noteq> Suc k" "j \<noteq> Suc i" "j \<noteq> Suc k" "k \<noteq> Suc i" "k \<noteq> Suc j"
    using assms(1-3) by auto
  show "ys ! i = a0" "ys ! Suc i = a1" "ys ! j = b0" "ys ! Suc j = b1"
        "ys ! k = c0" "ys ! Suc k = c1"
        "n \<notin> {i, Suc i, j, Suc j, k, Suc k} \<Longrightarrow> ys ! n = xs ! n"
    unfolding ys_def using assms(4-9) ne by (auto simp add: nth_list_update)
qed

lemma even_unat_u64: "even (unat (w::u64)) \<longleftrightarrow> even w"
proof -
  have "bit (unat w) 0 \<longleftrightarrow> bit w 0"
    by (simp add: bit_unsigned_iff)
  then show ?thesis by (simp add: bit_0)
qed

lemma TO_ADDR_le: "unat (TO_ADDR v) \<le> 262142"
proof -
  have "TO_ADDR v \<le> 262142"
    unfolding TO_ADDR_def by (simp add: word_and_le1)
  then show ?thesis by (simp add: word_le_nat_alt)
qed

lemma TO_ADDR_even: "even (unat (TO_ADDR v))"
  unfolding TO_ADDR_def by (simp add: even_and_iff even_unat_u64)

lemma TO_ADDR_xor2: "TO_ADDR v XOR 2 = TO_ADDR (v XOR 0x10)"
  unfolding TO_ADDR_def by (simp add: bit.conj_xor_distrib2 drop_bit_xor)

lemma TO_ADDR_xor4: "TO_ADDR v XOR 4 = TO_ADDR (v XOR 0x20)"
  unfolding TO_ADDR_def by (simp add: bit.conj_xor_distrib2 drop_bit_xor)

lemma TO_ADDR_xor6: "TO_ADDR v XOR 6 = TO_ADDR (v XOR 0x30)"
  unfolding TO_ADDR_def by (simp add: bit.conj_xor_distrib2 drop_bit_xor)

lemma xor_cancel_left: "(a::u64) XOR b = a XOR c \<Longrightarrow> b = c"
  by (metis bit.xor_left_self)

lemma xor_distinct: "(a::u64) XOR 2 \<noteq> a XOR 4" "a XOR 2 \<noteq> a XOR 6" "a XOR 4 \<noteq> a XOR 6"
  using xor_cancel_left[of a 2 4] xor_cancel_left[of a 2 6] xor_cancel_left[of a 4 6]
  by auto

lemma upt_0_24:
  "[0..<24] = [0, 1, 2, 3, 4, 5, 6, 7, 8, 9, 10, 11, 12, 13, 14, 15, 16, 17, 18, 19, 20, 21,
     22, 23 :: nat]"
  by code_simp

lemma shuffle_result:
  assumes len: "length xs = 262144"
  shows "\<exists>ys. VARIANT2_SHUFFLE xs (TO_ADDR v) = Some ys \<and> length ys = 262144 \<and>
           chunks24 ys (TO_ADDR v) =
             map (\<lambda>k. chunks24 xs (TO_ADDR v) ! (v2_table ! k)) [0..<24] \<and>
           (\<forall>n. n \<notin> chunk_words (TO_ADDR v) \<longrightarrow> ys ! n = xs ! n)"
proof -
  define i where "i = unat (TO_ADDR v XOR 2)"
  define j where "j = unat (TO_ADDR v XOR 4)"
  define k where "k = unat (TO_ADDR v XOR 6)"
  have ev: "even i" "even j" "even k"
    unfolding i_def j_def k_def TO_ADDR_xor2 TO_ADDR_xor4 TO_ADDR_xor6
    by (rule TO_ADDR_even)+
  have le: "Suc i < length xs" "Suc j < length xs" "Suc k < length xs"
    unfolding i_def j_def k_def TO_ADDR_xor2 TO_ADDR_xor4 TO_ADDR_xor6 len
    using TO_ADDR_le[of "v XOR 0x10"] TO_ADDR_le[of "v XOR 0x20"] TO_ADDR_le[of "v XOR 0x30"]
    by simp_all
  have ne: "i \<noteq> j" "i \<noteq> k" "j \<noteq> k"
    unfolding i_def j_def k_def by (simp_all add: word_unat_eq_iff[symmetric] xor_distinct)
  note u = upd6[OF ev ne le]
  show ?thesis
    unfolding VARIANT2_SHUFFLE_def U64_U16_LEN8_def U64_U16_LEN8_write_def
      chunks24_def cell_lanes_def chunk_words_def
      i_def[symmetric] j_def[symmetric] k_def[symmetric]
    using le len
    apply (simp add: Let_def u u64_lanes_lanes_u64)
    apply (simp add: u64_lanes_def v2_table_def upt_0_24)
    done
qed

section \<open>No panic in the memory-hard loop\<close>

lemma index_Some: "i < length xs \<Longrightarrow> index xs i = Some (xs ! i)"
  by (simp add: index_def)

lemma assign_Some: "i < length xs \<Longrightarrow> assign xs i v = Some (xs[i := v])"
  by (simp add: assign_def)

lemma load128_Some: "Suc j < length xs \<Longrightarrow> load128 xs j = Some (xs ! j, xs ! Suc j)"
  by (simp add: load128_def)

lemma store128_Some:
  "Suc j < length xs \<Longrightarrow> store128 xs j d = Some (xs[j := fst d, Suc j := snd d])"
  by (simp add: store128_def)

lemma TO_ADDR_succ: "unat (TO_ADDR v + 1) = Suc (unat (TO_ADDR v))"
  using TO_ADDR_le[of v] by (simp add: unat_word_ariths)

lemma TO_ADDR_lt: "unat (TO_ADDR v) < 262144"
  and TO_ADDR_Suc_lt: "unat (TO_ADDR v) < 262143"
  using TO_ADDR_le[of v] by simp_all

lemma shuffle_bind:
  assumes "length xs = 262144"
  shows "(VARIANT2_SHUFFLE xs (TO_ADDR v) \<bind> f) = f (the (VARIANT2_SHUFFLE xs (TO_ADDR v)))"
    and "length (the (VARIANT2_SHUFFLE xs (TO_ADDR v))) = 262144"
  using shuffle_result[OF assms, of v] by auto

lemma divisor_ge: "(0x80000001::u64) \<le> (x AND 0xffffffff) OR 0x80000001"
  by (simp add: le_word_or1)

lemma divisor_nonzero: "(x AND 0xffffffff) OR 0x80000001 \<noteq> (0::u64)"
  using divisor_ge[of x] by auto

lemma variant2_arith_Some:
  "variant2_arith b c dr sr =
     Some ((fst c, snd c XOR (dr XOR sr)),
       ((snd b div ((fst b AND 0xffffffff) OR 0x80000001)) AND 0xffffffff) OR
         push_bit 32 (snd b mod ((fst b AND 0xffffffff) OR 0x80000001)),
       uint64_of_float64 (math_Sqrt (float64_of_uint64 (drop_bit 16 (fst b +
         (((snd b div ((fst b AND 0xffffffff) OR 0x80000001)) AND 0xffffffff) OR
         push_bit 32 (snd b mod ((fst b AND 0xffffffff) OR 0x80000001))))))))"
  unfolding variant2_arith_def Let_def using divisor_nonzero[of "fst b"] by simp

lemma variant1_tweak_Some:
  assumes "length xs = 262144"
  shows "variant1_tweak xs (TO_ADDR v) =
     Some (xs[Suc (unat (TO_ADDR v)) :=
       xs ! Suc (unat (TO_ADDR v)) XOR
       push_bit 24 (tweak_bits (drop_bit 24 (xs ! Suc (unat (TO_ADDR v)))))])"
  unfolding variant1_tweak_def
  using TO_ADDR_Suc_lt[of v] assms
  by (simp add: TO_ADDR_succ index_Some assign_Some Let_def)


lemma memhard_iter_total:
  assumes "length (pad st) = 262144"
  shows "\<exists>st'. memhard_iter P variant tweak st = Some st' \<and> length (pad st') = 262144"
proof -
  consider "variant = 1" | "variant = 2" | "variant \<noteq> 1 \<and> variant \<noteq> 2" by blast
  then show ?thesis
  proof cases
    case 1
    then show ?thesis
      unfolding memhard_iter_def using assms
      by (simp add: Let_def TO_ADDR_succ load128_Some index_Some assign_Some TO_ADDR_lt
          TO_ADDR_Suc_lt variant1_tweak_Some)
  next
    case 2
    then show ?thesis
      unfolding memhard_iter_def using assms
      by (simp add: Let_def TO_ADDR_succ load128_Some index_Some assign_Some TO_ADDR_lt
          TO_ADDR_Suc_lt shuffle_bind variant2_arith_Some)
  next
    case 3
    then show ?thesis
      unfolding memhard_iter_def using assms
      by (simp add: Let_def TO_ADDR_succ load128_Some index_Some assign_Some TO_ADDR_lt
          TO_ADDR_Suc_lt)
  qed
qed

lemma memhard_loop_total:
  "length (pad st) = 262144 \<Longrightarrow>
   \<exists>st'. memhard_loop P variant tweak i st = Some st' \<and> length (pad st') = 262144"
proof (induction P variant tweak i st rule: memhard_loop.induct)
  case (1 P variant tweak i st)
  show ?case
  proof (cases "i < 524288")
    case True
    obtain st1 where st1: "memhard_iter P variant tweak st = Some st1"
      and len1: "length (pad st1) = 262144"
      using memhard_iter_total[OF "1.prems"] by blast
    from "1.IH"[OF True st1 len1] st1 True show ?thesis
      by (subst memhard_loop.simps) simp
  next
    case False
    with "1.prems" show ?thesis
      by (subst memhard_loop.simps) simp
  qed
qed

section \<open>Scratchpad initialisation and finalisation\<close>

lemma rounds_at_Some:
  "Suc j < length xs \<Longrightarrow>
   rounds_at P rkeys xs j =
     Some (xs[j := fst (CnRounds P (xs ! j, xs ! Suc j) rkeys),
              Suc j := snd (CnRounds P (xs ! j, xs ! Suc j) rkeys)])"
  by (simp add: rounds_at_def load128_Some store128_Some)

lemma init_blocks_total:
  "length blocks = 16 \<Longrightarrow> even j \<Longrightarrow>
   \<exists>bs. init_blocks P rkeys blocks j = Some bs \<and> length bs = 16"
proof (induction P rkeys blocks j rule: init_blocks.induct)
  case (1 P rkeys blocks j)
  show ?case
  proof (cases "j < 16")
    case True
    with "1.prems" have lt: "Suc j < length blocks" by presburger
    note r = rounds_at_Some[OF lt, of P rkeys]
    have "\<exists>bs. init_blocks P rkeys (the (rounds_at P rkeys blocks j)) (j + 2) = Some bs \<and>
            length bs = 16"
      by (rule "1.IH"[OF True]) (use r "1.prems" in simp_all)
    with r True show ?thesis
      by (subst init_blocks.simps) simp
  next
    case False
    with "1.prems" show ?thesis
      by (subst init_blocks.simps) simp
  qed
qed

lemma copy_at_16:
  "i + 16 \<le> length xs \<Longrightarrow> length src = 16 \<Longrightarrow>
   copy_at xs i src = Some (take i xs @ src @ drop (i + 16) xs)"
  by (auto simp add: copy_at_def Let_def min_def)

lemma aligned_step: "16 dvd (i::nat) \<Longrightarrow> i < 262144 \<Longrightarrow> i + 16 \<le> 262144"
  by presburger

lemma scratchpad_init_total:
  "length xs = 262144 \<Longrightarrow> length blocks = 16 \<Longrightarrow> 16 dvd i \<Longrightarrow>
   \<exists>bs ys. scratchpad_init P rkeys blocks xs i = Some (bs, ys) \<and>
           length bs = 16 \<and> length ys = 262144"
proof (induction P rkeys blocks xs i rule: scratchpad_init.induct)
  case (1 P rkeys blocks xs i)
  show ?case
  proof (cases "i < 262144")
    case True
    obtain bs where bs: "init_blocks P rkeys blocks 0 = Some bs" and lbs: "length bs = 16"
      using init_blocks_total[OF "1.prems"(2), of 0] by auto
    have le: "i + 16 \<le> length xs"
      using aligned_step[OF "1.prems"(3) True] "1.prems"(1) by simp
    note c = copy_at_16[OF le lbs]
    have "\<exists>bs' ys. scratchpad_init P rkeys bs (take i xs @ bs @ drop (i + 16) xs) (i + 16) =
              Some (bs', ys) \<and> length bs' = 16 \<and> length ys = 262144"
      by (rule "1.IH"[OF True bs c]) (use le lbs "1.prems" in simp_all)
    with bs c True show ?thesis
      by (subst scratchpad_init.simps) simp
  next
    case False
    with "1.prems" show ?thesis
      by (subst scratchpad_init.simps) simp
  qed
qed

lemma scratchpad_init_indep:
  "length xs = 262144 \<Longrightarrow> length xs' = 262144 \<Longrightarrow> length blocks = 16 \<Longrightarrow> 16 dvd i \<Longrightarrow>
   take i xs' = take i xs \<Longrightarrow>
   scratchpad_init P rkeys blocks xs' i = scratchpad_init P rkeys blocks xs i"
proof (induction P rkeys blocks xs i arbitrary: xs' rule: scratchpad_init.induct)
  case (1 P rkeys blocks xs i)
  show ?case
  proof (cases "i < 262144")
    case True
    obtain bs where bs: "init_blocks P rkeys blocks 0 = Some bs" and lbs: "length bs = 16"
      using init_blocks_total[OF "1.prems"(3), of 0] by auto
    have le: "i + 16 \<le> length xs" and le': "i + 16 \<le> length xs'"
      using aligned_step[OF "1.prems"(4) True] "1.prems"(1,2) by simp_all
    note c = copy_at_16[OF le lbs] and c' = copy_at_16[OF le' lbs]
    have "scratchpad_init P rkeys bs (take i xs' @ bs @ drop (i + 16) xs') (i + 16) =
          scratchpad_init P rkeys bs (take i xs @ bs @ drop (i + 16) xs) (i + 16)"
      by (rule "1.IH"[OF True bs c]) (use le le' lbs "1.prems" in simp_all)
    with bs c c' True show ?thesis
      by (subst (1 2) scratchpad_init.simps) simp
  next
    case False
    with "1.prems" have "xs' = xs" by simp
    then show ?thesis by simp
  qed
qed

lemma scratchpad_init_any:
  "length xs = 262144 \<Longrightarrow> length xs' = 262144 \<Longrightarrow> length blocks = 16 \<Longrightarrow>
   scratchpad_init P rkeys blocks xs' 0 = scratchpad_init P rkeys blocks xs 0"
  by (rule scratchpad_init_indep) simp_all

lemma final_step_total:
  assumes "Suc (i + j) < length xs" "Suc j < length blocks"
  shows "\<exists>ys. final_step P rkeys blocks xs i j = Some ys \<and> length ys = length xs"
  unfolding final_step_def using assms
  by (simp add: index_Some assign_Some rounds_at_Some)

lemma final_chunk_total:
  "i + 16 \<le> length xs \<Longrightarrow> length blocks = 16 \<Longrightarrow> even j \<Longrightarrow>
   \<exists>ys. final_chunk P rkeys blocks xs i j = Some ys \<and> length ys = length xs"
proof (induction P rkeys blocks xs i j rule: final_chunk.induct)
  case (1 P rkeys blocks xs i j)
  show ?case
  proof (cases "j < 16")
    case True
    with "1.prems" have "Suc j < 16" by presburger
    with "1.prems" have lt: "Suc (i + j) < length xs" "Suc j < length blocks" by simp_all
    obtain ys where ys: "final_step P rkeys blocks xs i j = Some ys"
      and lys: "length ys = length xs"
      using final_step_total[OF lt] by blast
    have "\<exists>zs. final_chunk P rkeys blocks ys i (j + 2) = Some zs \<and> length zs = length ys"
      by (rule "1.IH"[OF True ys]) (use lys "1.prems" in simp_all)
    with ys lys True show ?thesis
      by (subst final_chunk.simps) simp
  next
    case False
    then show ?thesis
      by (subst final_chunk.simps) simp
  qed
qed

lemma window_16:
  "i + 16 \<le> length xs \<Longrightarrow> window xs i (i + 16) = Some (take 16 (drop i xs))"
  by (simp add: window_def)

lemma final_loop_total:
  "length xs = 262144 \<Longrightarrow> length blocks = 16 \<Longrightarrow> 16 dvd i \<Longrightarrow>
   \<exists>bs ys. final_loop P rkeys blocks xs i = Some (bs, ys) \<and>
           length bs = 16 \<and> length ys = 262144"
proof (induction P rkeys blocks xs i rule: final_loop.induct)
  case (1 P rkeys blocks xs i)
  show ?case
  proof (cases "i < 262144")
    case True
    have le: "i + 16 \<le> length xs"
      using aligned_step[OF "1.prems"(3) True] "1.prems"(1) by simp
    obtain ys where ys: "final_chunk P rkeys blocks xs i 0 = Some ys"
      and lys: "length ys = length xs"
      using final_chunk_total[OF le "1.prems"(2), of 0] by auto
    have w: "window ys i (i + 16) = Some (take 16 (drop i ys))"
      using le lys by (simp add: window_16)
    have "\<exists>bs zs. final_loop P rkeys (take 16 (drop i ys)) ys (i + 16) = Some (bs, zs) \<and>
             length bs = 16 \<and> length zs = 262144"
      by (rule "1.IH"[OF True ys w]) (use le lys "1.prems" in simp_all)
    with ys w True show ?thesis
      by (subst final_loop.simps) simp
  next
    case False
    with "1.prems" show ?thesis
      by (subst final_loop.simps) simp
  qed
qed

section \<open>The whole of \<open>Cache.Sum\<close>\<close>

lemma variant1_init_Some:
  "43 \<le> cap data \<Longrightarrow>
   variant1_init fs data = Some (fs 24 XOR le_u64 (take 8 (drop 35 (elems data))))"
  by (simp add: variant1_init_def slice_expr_def LittleEndian_Uint64_def)

lemma variant1_init_None: "cap data < 43 \<Longrightarrow> variant1_init fs data = None"
  by (simp add: variant1_init_def slice_expr_def)

lemma length_map_fs: "length (map fs [8..<24]) = 16"
  by simp

lemma Cache_Sum_total:
  assumes ok: "cache_ok c" and pre: "variant = 1 \<longrightarrow> 43 \<le> cap data"
  shows "\<exists>d c'. Cache_Sum P c data variant = Some (d, c') \<and> cache_ok c'"
proof -
  define fs where "fs = Keccak1600State P (bytes_of data)"
  define rkeys where "rkeys = CnExpandKey P (map fs [0..<4]) (replicate 40 0)"
  define rkeys' where "rkeys' = CnExpandKey P (map fs [4..<8]) rkeys"
  define blocks where "blocks = map fs [8..<24]"
  have lb: "length blocks = 16" by (simp add: blocks_def)
  obtain tweak where tw: "(if variant = 1 then variant1_init fs data else Some 0) = Some tweak"
    using pre by (cases "variant = 1") (simp_all add: variant1_init_Some)
  obtain bs xs where init: "scratchpad_init P rkeys blocks (scratchpad c) 0 = Some (bs, xs)"
    and lxs: "length xs = 262144"
    using scratchpad_init_total[OF ok[unfolded cache_ok_def] lb, of 0 P rkeys]
    by auto
  define st0 where "st0 = \<lparr>reg_a = (fs 0 XOR fs 4, fs 1 XOR fs 5),
       reg_b = (fs 2 XOR fs 6, fs 3 XOR fs 7),
       divisionResult = 0, sqrtResult = 0, pad = xs\<rparr>"
  have "length (pad st0) = 262144" by (simp add: st0_def lxs)
  then obtain st where loop: "memhard_loop P variant tweak 0 st0 = Some st"
    and lst: "length (pad st) = 262144"
    using memhard_loop_total[of st0 P variant tweak 0] by auto
  obtain bs' ys where fin: "final_loop P rkeys' blocks (pad st) 0 = Some (bs', ys)"
    and lys: "length ys = 262144"
    using final_loop_total[OF lst lb, of 0 P rkeys'] by auto
  show ?thesis
    unfolding Cache_Sum_def Let_def fs_def[symmetric]
    unfolding blocks_def[symmetric] rkeys_def[symmetric]
    unfolding rkeys'_def[symmetric]
    using tw init loop[unfolded st0_def] fin lys
    by (simp add: cache_ok_def)
qed

lemma Cache_Sum_None:
  "cap data < 43 \<Longrightarrow> Cache_Sum P c data 1 = None"
  unfolding Cache_Sum_def Let_def by (simp add: variant1_init_None)

lemma Cache_Sum_indep:
  assumes "cache_ok c" "cache_ok c'"
  shows "Cache_Sum P c' data variant = Cache_Sum P c data variant"
proof -
  have "scratchpad_init P rkeys (map fs [8..<24]) (scratchpad c') 0 =
        scratchpad_init P rkeys (map fs [8..<24]) (scratchpad c) 0" for rkeys fs
    using assms by (intro scratchpad_init_any) (simp_all add: cache_ok_def)
  then show ?thesis
    unfolding Cache_Sum_def Let_def by (simp only:)
qed

lemma memhard_iter_other:
  "variant \<noteq> 1 \<Longrightarrow> variant \<noteq> 2 \<Longrightarrow>
   memhard_iter P variant tweak st = memhard_iter P 0 tweak st"
  by (simp add: memhard_iter_def)

lemma memhard_loop_other:
  "variant \<noteq> 1 \<Longrightarrow> variant \<noteq> 2 \<Longrightarrow>
   memhard_loop P variant tweak i st = memhard_loop P 0 tweak i st"
proof (induction P variant tweak i st rule: memhard_loop.induct)
  case (1 P variant tweak i st)
  show ?case
  proof (cases "i < 524288")
    case True
    show ?thesis
    proof (cases "memhard_iter P variant tweak st")
      case None
      with True "1.prems" show ?thesis
        by (subst (1 2) memhard_loop.simps) (simp add: memhard_iter_other[symmetric])
    next
      case (Some st')
      have "memhard_loop P variant tweak (i + 1) st' = memhard_loop P 0 tweak (i + 1) st'"
        by (rule "1.IH"[OF True Some "1.prems"])
      with True Some "1.prems" show ?thesis
        by (subst (1 2) memhard_loop.simps) (simp add: memhard_iter_other[symmetric])
    qed
  next
    case False
    then show ?thesis by (subst (1 2) memhard_loop.simps) simp
  qed
qed

lemma Cache_Sum_other:
  assumes "variant \<noteq> 1" "variant \<noteq> 2"
  shows "Cache_Sum P c data variant = Cache_Sum P c data 0"
proof -
  have "memhard_loop P variant 0 0 st = memhard_loop P 0 0 0 st" for st
    by (rule memhard_loop_other[OF assms])
  then show ?thesis
    unfolding Cache_Sum_def Let_def using assms by simp
qed

lemma length_u64_bytes: "length (u64_bytes w) = 8"
  by (simp add: u64_bytes_def)

lemma length_U64_U8: "length (U64_U8 a lo hi) = 8 * (hi - lo)"
  by (induction hi) (auto simp add: U64_U8_def length_u64_bytes Suc_diff_le)

lemma Cache_Sum_digest:
  assumes "Cache_Sum P c data variant = Some (d, c')"
  shows "d = finalist P (finalState c' 0 AND 0x03) (U64_U8 (finalState c') 0 25)"
  using assms unfolding Cache_Sum_def Let_def
  by (auto split: bind_splits prod.splits)

section \<open>Cell indices, the variant-1 bits, the serialised state\<close>

lemma cell_index_lt: "unat (drop_bit 4 (v AND (0x1ffff0::u64))) < 131072"
proof -
  have "drop_bit 4 (v AND (0x1ffff0::u64)) \<le> 131071"
    by (simp add: word_and_le1)
  then show ?thesis by (simp add: word_le_nat_alt)
qed

lemma TO_ADDR_cell: "unat (TO_ADDR v) = 2 * unat (drop_bit 4 (v AND (0x1ffff0::u64)))"
proof -
  define x where "x = unat (v AND (0x1ffff0::u64))"
  have "(v AND (0x1ffff0::u64)) AND mask 4 = 0"
    by (simp add: mask_eq_exp_minus_1 and.assoc)
  then have "2 ^ 4 dvd x"
    unfolding x_def by (simp only: and_mask_dvd_nat)
  then have "x div 8 = 2 * (x div 16)" by auto
  then show ?thesis
    unfolding TO_ADDR_def x_def unat_drop_bit_eq by (simp add: drop_bit_eq_div)
qed





lemma u64_bytes_nth: "k < 8 \<Longrightarrow> u64_bytes w ! k = ucast (drop_bit (8 * k) w)"
  by (simp add: u64_bytes_def)

lemma U64_U8_Suc: "U64_U8 a 0 (Suc n) = U64_U8 a 0 n @ u64_bytes (a n)"
  by (simp add: U64_U8_def)

lemma U64_U8_nth:
  "i < n \<Longrightarrow> k < 8 \<Longrightarrow> U64_U8 a 0 n ! (8 * i + k) = ucast (drop_bit (8 * k) (a i))"
proof (induction n)
  case 0
  then show ?case by simp
next
  case (Suc n)
  show ?case
  proof (cases "i < n")
    case True
    then have "8 * i + k < length (U64_U8 a 0 n)"
      using Suc.prems by (simp add: length_U64_U8)
    then show ?thesis
      using Suc.IH[OF True Suc.prems(2)] by (simp add: U64_U8_Suc nth_append)
  next
    case False
    with Suc.prems have "i = n" by simp
    then show ?thesis
      using Suc.prems by (simp add: U64_U8_Suc nth_append length_U64_U8 u64_bytes_nth)
  qed
qed

lemma and_3_cases: "(x::u64) AND 3 = 0 \<or> x AND 3 = 1 \<or> x AND 3 = 2 \<or> x AND 3 = 3"
proof -
  have "x AND 3 \<le> 3" by (rule word_and_le1)
  then have "unat (x AND 3) \<le> 3" by (simp add: word_le_nat_alt)
  then consider "unat (x AND 3) = 0" | "unat (x AND 3) = 1" | "unat (x AND 3) = 2"
    | "unat (x AND 3) = 3" by linarith
  then show ?thesis
    by cases (simp_all add: word_unat_eq_iff)
qed

lemma valid_call_pre: "valid_call data variant \<Longrightarrow> variant = 1 \<longrightarrow> 43 \<le> cap data"
  by (auto simp add: valid_call_def slice_wf_def)

lemma cache_ok_zero: "cache_ok zero_cache"
  by (simp add: cache_ok_def zero_cache_def)

lemma Cache_Sum_variant1_panics_iff:
  assumes "cache_ok c"
  shows "Cache_Sum P c data 1 = None \<longleftrightarrow> cap data < 43"
proof
  assume "Cache_Sum P c data 1 = None"
  then show "cap data < 43"
    using Cache_Sum_total[OF assms, of 1 data P] by (cases "cap data < 43") auto
next
  assume "cap data < 43"
  then show "Cache_Sum P c data 1 = None" by (rule Cache_Sum_None)
qed

lemma Cache_Sum_length:
  assumes "Cache_Sum P c data variant = Some (d, c')" "finalists_32 P"
  shows "length d = 32"
  using Cache_Sum_digest[OF assms(1)] assms(2)
  by (simp add: finalist_def finalists_32_def)

section \<open>The variant-2 division and square root\<close>

lemma sqrt_bisect_correct:
  "lo * lo \<le> n \<Longrightarrow> n < hi * hi \<Longrightarrow>
   sqrt_bisect n lo hi * sqrt_bisect n lo hi \<le> n \<and>
   n < Suc (sqrt_bisect n lo hi) * Suc (sqrt_bisect n lo hi)"
proof (induction n lo hi rule: sqrt_bisect.induct)
  case (1 n lo hi)
  have lt: "lo < hi"
  proof (rule ccontr)
    assume "\<not> lo < hi"
    then have "hi * hi \<le> lo * lo" by (intro mult_le_mono) simp_all
    with "1.prems" show False by simp
  qed
  show ?case
  proof (cases "hi \<le> Suc lo")
    case True
    with lt have "hi = Suc lo" by simp
    with True "1.prems" show ?thesis by simp
  next
    case False
    define mid where "mid = (lo + hi) div 2"
    show ?thesis
    proof (cases "mid * mid \<le> n")
      case True
      from "1.IH"(1)[OF False mid_def True True "1.prems"(2)] False True
      show ?thesis by (simp add: mid_def Let_def)
    next
      case False': False
      then have "n < mid * mid" by simp
      from "1.IH"(2)[OF False mid_def False' "1.prems"(1) this] False False'
      show ?thesis by (simp add: mid_def Let_def)
    qed
  qed
qed

lemma isqrt_correct: "isqrt n * isqrt n \<le> n \<and> n < Suc (isqrt n) * Suc (isqrt n)"
  unfolding isqrt_def by (rule sqrt_bisect_correct) simp_all



lemma sq_less_imp_less: "(a::nat) * a < b * b \<Longrightarrow> a < b"
proof (rule ccontr)
  assume "a * a < b * b" "\<not> a < b"
  then have "b \<le> a" by simp
  then have "b * b \<le> a * a" by (intro mult_le_mono)
  with \<open>a * a < b * b\<close> show False by simp
qed


lemma isqrt_less: 
  assumes "n < b * b" shows "isqrt n < b"
proof -
  have "isqrt n * isqrt n \<le> n" using isqrt_correct[of n] by simp
  with assms have "isqrt n * isqrt n < b * b" by simp
  then show ?thesis by (rule sq_less_imp_less)
qed


lemma four_power: "(4::nat) ^ k = 2 ^ k * 2 ^ k"
proof -
  have "(4::nat) ^ k = (2 * 2) ^ k" by simp
  also have "\<dots> = 2 ^ k * 2 ^ k" by (rule power_mult_distrib)
  finally show ?thesis .
qed

lemma isqrt_scaled:
  fixes N p R :: nat
  assumes R: "R * R \<le> N" "N < Suc R * Suc R" and ppos: "0 < p"
  shows "R * p \<le> isqrt (N * (p * p))"
    and "isqrt (N * (p * p)) < Suc R * p"
    and "N * (p * p) + p * p \<le> (Suc R * p) * (Suc R * p)"
proof -
  define M where "M = N * (p * p)"
  define s where "s = isqrt M"
  have s1: "s * s \<le> M" and s2: "M < Suc s * Suc s"
    using isqrt_correct[of M] unfolding s_def by simp_all
  have e1: "(R * p) * (R * p) = (R * R) * (p * p)"
    by (simp only: mult.assoc mult.left_commute)
  have "(R * R) * (p * p) \<le> M"
    unfolding M_def using R(1) by (rule mult_le_mono1)
  then have "(R * p) * (R * p) \<le> M" by (simp only: e1)
  then have "(R * p) * (R * p) < Suc s * Suc s" using s2 by (rule le_less_trans)
  then have "R * p < Suc s" by (rule sq_less_imp_less)
  then show "R * p \<le> isqrt (N * (p * p))" unfolding s_def M_def by simp
  have "Suc N \<le> Suc R * Suc R" using R(2) by simp
  then have a: "Suc N * (p * p) \<le> (Suc R * Suc R) * (p * p)" by (rule mult_le_mono1)
  have b: "Suc N * (p * p) = M + p * p" unfolding M_def by simp
  have c: "(Suc R * Suc R) * (p * p) = (Suc R * p) * (Suc R * p)"
    by (simp only: mult.assoc mult.left_commute)
  have up: "M + p * p \<le> (Suc R * p) * (Suc R * p)"
    using a unfolding b c .
  then show "N * (p * p) + p * p \<le> (Suc R * p) * (Suc R * p)" unfolding M_def .
  have "0 < p * p" using ppos by simp
  with up have "M < (Suc R * p) * (Suc R * p)" by linarith
  with s1 have "s * s < (Suc R * p) * (Suc R * p)" by (rule le_less_trans)
  then have "s < Suc R * p" by (rule sq_less_imp_less)
  then show "isqrt (N * (p * p)) < Suc R * p" unfolding s_def M_def .
qed


lemma round_half:
  fixes M :: nat
  assumes "0 < M"
  defines "m \<equiv> (if isqrt M < M - isqrt M * isqrt M then isqrt M + 1 else isqrt M)"
  shows "(2 * m - 1) * (2 * m - 1) < 4 * M \<and> 4 * M < (2 * m + 1) * (2 * m + 1)"
proof -
  define s where "s = isqrt M"
  have s1: "s * s \<le> M" and s2: "M < Suc s * Suc s"
    using isqrt_correct[of M] unfolding s_def by simp_all
  have spos: "0 < s"
  proof (rule ccontr)
    assume "\<not> 0 < s"
    then have "s = 0" by simp
    with s2 assms(1) show False by simp
  qed
  show ?thesis
  proof (cases "s < M - s * s")
    case True
    then have m: "m = s + 1" unfolding m_def s_def by simp
    from True have a: "s * s + s + 1 \<le> M" by simp
    have "(2 * m - 1) * (2 * m - 1) = 4 * (s * s + s) + 1"
      unfolding m by (simp add: algebra_simps)
    also have "\<dots> < 4 * M" using a by simp
    finally have 1: "(2 * m - 1) * (2 * m - 1) < 4 * M" .
    have "4 * M < 4 * (Suc s * Suc s)" using s2 by simp
    also have "\<dots> \<le> (2 * m + 1) * (2 * m + 1)"
      unfolding m by (simp add: algebra_simps)
    finally show ?thesis using 1 by simp
  next
    case False
    then have m: "m = s" unfolding m_def s_def by simp
    from False s1 have a: "M \<le> s * s + s" by simp
    have "2 * s - 1 < 2 * s" using spos by simp
    then have "(2 * s - 1) * (2 * s - 1) < (2 * s) * (2 * s)"
      by (intro mult_strict_mono) simp_all
    also have "\<dots> = 4 * (s * s)" by simp
    also have "\<dots> \<le> 4 * M" using s1 by simp
    finally have 1: "(2 * m - 1) * (2 * m - 1) < 4 * M" unfolding m .
    have "4 * M \<le> 4 * (s * s + s)" using a by simp
    also have "\<dots> < (2 * m + 1) * (2 * m + 1)"
      unfolding m by (simp add: algebra_simps)
    finally show ?thesis using 1 by simp
  qed
qed






text \<open>
  The model of \<open>math.Sqrt\<close> is the correctly rounded root: on an integer \<open>N\<close> the result
  \<open>m / 2 ^ k\<close> has 53 significant bits and lies less than half a unit in the last place
  from the real root, \<open>(2 m - 1)\<^sup>2 < 4 N 4 ^ k < (2 m + 1)\<^sup>2\<close>.
\<close>

lemma math_Sqrt_rounded:
  assumes "0 < N" "N < 2 ^ 48"
  shows "\<exists>m k. math_Sqrt (F64 N 0) = F64 m (- int k) \<and> 2 ^ 52 \<le> m \<and> m \<le> 2 ^ 53 \<and>
           (2 * m - 1) * (2 * m - 1) < 4 * (N * 4 ^ k) \<and>
           4 * (N * 4 ^ k) < (2 * m + 1) * (2 * m + 1)"
proof -
  define R where "R = isqrt N"
  define n where "n = floorlog 2 R"
  define k where "k = 53 - n"
  define M where "M = N * 4 ^ k"
  define m where "m = (if isqrt M < M - isqrt M * isqrt M then isqrt M + 1 else isqrt M)"
  have RR: "R * R \<le> N" "N < Suc R * Suc R"
    using isqrt_correct[of N] unfolding R_def by simp_all
  have Rpos: "0 < R"
  proof (rule ccontr)
    assume "\<not> 0 < R"
    then have "R = 0" by simp
    with RR(2) assms(1) show False by simp
  qed
  have "N < 2 ^ 24 * 2 ^ 24" using assms(2) by simp
  then have R24: "R < 2 ^ 24" unfolding R_def by (rule isqrt_less)
  then have n24: "n \<le> 24" unfolding n_def by (simp add: floorlog_le_iff)
  have "n \<noteq> 0" unfolding n_def using Rpos by (simp add: floorlog_eq_zero_iff)
  then have npos: "0 < n" by simp
  have fb: "2 ^ (n - 1) \<le> R" "R < 2 ^ n"
    using floorlog_bounds[of R 2] Rpos unfolding n_def by simp_all
  have nk: "n - 1 + k = 52" "n + k = 53" unfolding k_def using n24 npos by simp_all
  have sc: "R * 2 ^ k \<le> isqrt M" "isqrt M < Suc R * 2 ^ k"
    using isqrt_scaled(1,2)[OF RR, of "2 ^ k"] unfolding M_def four_power by simp_all
  have "(2::nat) ^ 52 = 2 ^ (n - 1) * 2 ^ k"
    unfolding power_add[symmetric] nk ..
  also have "\<dots> \<le> R * 2 ^ k" using fb(1) by (rule mult_le_mono1)
  finally have lo: "2 ^ 52 \<le> isqrt M" using sc(1) by simp
  have "Suc R \<le> 2 ^ n" using fb(2) by simp
  then have "Suc R * 2 ^ k \<le> 2 ^ n * 2 ^ k" by (rule mult_le_mono1)
  also have "\<dots> = 2 ^ 53" unfolding power_add[symmetric] nk ..
  finally have hi: "isqrt M + 1 \<le> 2 ^ 53" using sc(2) by simp
  have mb: "2 ^ 52 \<le> m" "m \<le> 2 ^ 53"
    unfolding m_def using lo hi by simp_all
  have Mpos: "0 < M" unfolding M_def using assms(1) by simp
  note rh = round_half[OF Mpos, folded m_def]
  have "math_Sqrt (F64 N 0) = F64 m (- int k)"
    using assms(1)
    by (simp add: Let_def R_def[symmetric] n_def[symmetric] k_def[symmetric]
        M_def[symmetric] m_def)
  with mb rh show ?thesis unfolding M_def by blast
qed






section \<open>The claims\<close>






text \<open>
  C4. For every 128-bit value whose low word \<open>v\<close> is used for addressing, the cell index
  \<open>(v & 0x1FFFF0) >> 4\<close> is below 131072; the word index \<open>TO_ADDR v\<close> is twice the cell
  index, even and at most 262142.  Both words of the addressed cell are inside the
  scratchpad of 262144 words, and an iteration of the memory-hard loop, as the whole loop,
  never panics on an access, whatever the variant.
\<close>

theorem memhard_addresses_in_bounds:
  assumes "length (pad st) = 262144"
  shows "unat (drop_bit 4 (v AND (0x1ffff0::u64))) < 131072 \<and>
         unat (TO_ADDR v) = 2 * unat (drop_bit 4 (v AND (0x1ffff0::u64))) \<and>
         even (unat (TO_ADDR v)) \<and> unat (TO_ADDR v) \<le> 262142 \<and>
         index (pad st) (unat (TO_ADDR v)) = Some (pad st ! unat (TO_ADDR v)) \<and>
         index (pad st) (unat (TO_ADDR v + 1)) = Some (pad st ! (unat (TO_ADDR v) + 1)) \<and>
         (\<exists>st'. memhard_iter P variant tweak st = Some st' \<and> length (pad st') = 262144) \<and>
         (\<exists>st'. memhard_loop P variant tweak i st = Some st' \<and> length (pad st') = 262144)"
proof -
  have "index (pad st) (unat (TO_ADDR v)) = Some (pad st ! unat (TO_ADDR v))"
    "index (pad st) (unat (TO_ADDR v + 1)) = Some (pad st ! (unat (TO_ADDR v) + 1))"
    using TO_ADDR_le[of v] assms by (simp_all add: index_def TO_ADDR_succ)
  with cell_index_lt[of v] TO_ADDR_cell[of v] TO_ADDR_even[of v] TO_ADDR_le[of v]
    memhard_iter_total[OF assms, of P variant tweak]
    memhard_loop_total[OF assms, of P variant tweak i]
  show ?thesis by blast
qed

theorem memhard_addresses_in_bounds_witness:
  "\<forall>P. length (pad \<lparr>reg_a = (0, 0), reg_b = (0, 0), divisionResult = 0, sqrtResult = 0,
            pad = replicate 262144 0\<rparr>) = 262144 \<and>
       unat (TO_ADDR (- 1)) \<le> 262142 \<and>
       (\<exists>st'. memhard_iter P 2 0 \<lparr>reg_a = (0, 0), reg_b = (0, 0), divisionResult = 0,
            sqrtResult = 0, pad = replicate 262144 0\<rparr> = Some st')"
proof
  fix P
  have h: "length (pad \<lparr>reg_a = (0, 0), reg_b = (0, 0), divisionResult = 0, sqrtResult = 0,
            pad = replicate 262144 (0::u64)\<rparr>) = 262144" by simp
  from memhard_addresses_in_bounds[OF h, of "- 1" P 2 0 0] h
  show "length (pad \<lparr>reg_a = (0, 0), reg_b = (0, 0), divisionResult = 0, sqrtResult = 0,
            pad = replicate 262144 0\<rparr>) = 262144 \<and>
       unat (TO_ADDR (- 1)) \<le> 262142 \<and>
       (\<exists>st'. memhard_iter P 2 0 \<lparr>reg_a = (0, 0), reg_b = (0, 0), divisionResult = 0,
            sqrtResult = 0, pad = replicate 262144 0\<rparr> = Some st')"
    by blast
qed

text \<open>
  C5. Reusing a cache: for valid calls \<open>(x1, v1)\<close> and \<open>(x2, v2)\<close> and any cache,
  \<open>Sum(x1, v1)\<close> followed by \<open>Sum(x2, v2)\<close> on the same cache returns, the second
  time, the digest that \<open>Sum(x2, v2)\<close> returns on a fresh, zero-initialised cache.  The
  digest is a function of the data and the variant, independent of the state and the
  scratchpad the cache held before, and the zero value is a valid cache.  The scratchpad
  half is proved on the code (the initialisation overwrites all 262144 words); the state
  half rests on \<open>Keccak1600State\<close> overwriting the state, as the specification says.
\<close>

theorem cache_reuse_equivalence:
  assumes "cache_ok c" "valid_call x1 v1" "valid_call x2 v2"
  shows "cache_ok zero_cache \<and>
         (\<exists>d1 c1 d2 c2. Cache_Sum P c x1 v1 = Some (d1, c1) \<and>
            Cache_Sum P c1 x2 v2 = Some (d2, c2) \<and> Sum P x2 v2 = Some d2) \<and>
         (\<forall>c'. cache_ok c' \<longrightarrow> map_option fst (Cache_Sum P c' x2 v2) = Sum P x2 v2)"
proof -
  obtain d1 c1 where 1: "Cache_Sum P c x1 v1 = Some (d1, c1)" and ok1: "cache_ok c1"
    using Cache_Sum_total[OF assms(1) valid_call_pre[OF assms(2)]] by blast
  obtain d2 c2 where 2: "Cache_Sum P c1 x2 v2 = Some (d2, c2)"
    using Cache_Sum_total[OF ok1 valid_call_pre[OF assms(3)]] by blast
  have ind: "map_option fst (Cache_Sum P c' x2 v2) = Sum P x2 v2" if "cache_ok c'" for c'
    unfolding Sum_def using Cache_Sum_indep[OF cache_ok_zero that, of P x2 v2] by simp
  from ind[OF ok1] 2 have "Sum P x2 v2 = Some d2" by simp
  with 1 2 ind cache_ok_zero show ?thesis by blast
qed

theorem cache_reuse_equivalence_witness:
  "\<forall>P. cache_ok zero_cache \<and>
       valid_call \<lparr>elems = replicate 43 0, slice_len = 43\<rparr> 1 \<and>
       valid_call \<lparr>elems = [], slice_len = 0\<rparr> 2 \<and>
       (\<exists>d1 c1 d2 c2.
          Cache_Sum P zero_cache \<lparr>elems = replicate 43 0, slice_len = 43\<rparr> 1 = Some (d1, c1) \<and>
          Cache_Sum P c1 \<lparr>elems = [], slice_len = 0\<rparr> 2 = Some (d2, c2) \<and>
          Sum P \<lparr>elems = [], slice_len = 0\<rparr> 2 = Some d2)"
proof
  fix P
  have v1: "valid_call \<lparr>elems = replicate 43 0, slice_len = 43\<rparr> 1"
    by (simp add: valid_call_def slice_wf_def cap_def)
  have v2: "valid_call \<lparr>elems = [], slice_len = 0\<rparr> 2"
    by (simp add: valid_call_def slice_wf_def cap_def)
  have ok: "cache_ok zero_cache"
    by (simp add: cache_ok_def zero_cache_def)
  from cache_reuse_equivalence[OF ok v1 v2, of P] ok v1 v2
  show "cache_ok zero_cache \<and>
       valid_call \<lparr>elems = replicate 43 0, slice_len = 43\<rparr> 1 \<and>
       valid_call \<lparr>elems = [], slice_len = 0\<rparr> 2 \<and>
       (\<exists>d1 c1 d2 c2.
          Cache_Sum P zero_cache \<lparr>elems = replicate 43 0, slice_len = 43\<rparr> 1 = Some (d1, c1) \<and>
          Cache_Sum P c1 \<lparr>elems = [], slice_len = 0\<rparr> 2 = Some (d2, c2) \<and>
          Sum P \<lparr>elems = [], slice_len = 0\<rparr> 2 = Some d2)"
    by blast
qed

text \<open>
  C6, as stated (a variant outside \<open>{0, 1, 2}\<close> surfaces a failure), does not hold: the
  source never inspects the variant beyond the tests \<open>variant == 1\<close> and \<open>variant == 2\<close>.
  With variant 3 and the empty input, \<open>Sum\<close> and \<open>Cache.Sum\<close> return a digest.
\<close>

theorem invalid_variant_counterexample:
  "\<forall>P. (\<exists>d. Sum P \<lparr>elems = [], slice_len = 0\<rparr> 3 = Some d) \<and>
       (\<exists>d c'. Cache_Sum P zero_cache \<lparr>elems = [], slice_len = 0\<rparr> 3 = Some (d, c'))"
proof
  fix P
  have "(3::int) = 1 \<longrightarrow> 43 \<le> cap \<lparr>elems = [], slice_len = 0\<rparr>" by simp
  from Cache_Sum_total[OF cache_ok_zero this, of P]
  show "(\<exists>d. Sum P \<lparr>elems = [], slice_len = 0\<rparr> 3 = Some d) \<and>
       (\<exists>d c'. Cache_Sum P zero_cache \<lparr>elems = [], slice_len = 0\<rparr> 3 = Some (d, c'))"
    unfolding Sum_def by auto
qed

text \<open>
  C6, amended.  For every variant outside \<open>{0, 1, 2}\<close> and every input, \<open>Sum\<close> and
  \<open>Cache.Sum\<close> validate nothing: the call does not fail and returns what variant 0
  returns.
\<close>

theorem invalid_variant_not_rejected:
  assumes "cache_ok c" "variant \<notin> {0, 1, 2}"
  shows "(\<exists>d c'. Cache_Sum P c data variant = Some (d, c') \<and>
            Cache_Sum P c data 0 = Some (d, c')) \<and>
         (\<exists>d. Sum P data variant = Some d \<and> Sum P data 0 = Some d)"
proof -
  from assms(2) have ne: "variant \<noteq> 1" "variant \<noteq> 2" by simp_all
  then have pre: "variant = 1 \<longrightarrow> 43 \<le> cap data" by simp
  have eq: "Cache_Sum P c' data variant = Cache_Sum P c' data 0" for c'
    by (rule Cache_Sum_other[OF ne])
  from Cache_Sum_total[OF assms(1) pre, of P] Cache_Sum_total[OF cache_ok_zero pre, of P]
  show ?thesis
    unfolding Sum_def eq by auto
qed

theorem invalid_variant_not_rejected_witness:
  "\<forall>P. cache_ok zero_cache \<and> (7::int) \<notin> {0, 1, 2} \<and>
       (\<exists>d. Sum P \<lparr>elems = [], slice_len = 0\<rparr> 7 = Some d \<and>
            Sum P \<lparr>elems = [], slice_len = 0\<rparr> 0 = Some d)"
proof
  fix P
  have ok: "cache_ok zero_cache"
    by (simp add: cache_ok_def zero_cache_def)
  have v: "(7::int) \<notin> {0, 1, 2}" by simp
  from invalid_variant_not_rejected[OF ok v, of P "\<lparr>elems = [], slice_len = 0\<rparr>"] ok v
  show "cache_ok zero_cache \<and> (7::int) \<notin> {0, 1, 2} \<and>
       (\<exists>d. Sum P \<lparr>elems = [], slice_len = 0\<rparr> 7 = Some d \<and>
            Sum P \<lparr>elems = [], slice_len = 0\<rparr> 0 = Some d)"
    by blast
qed

text \<open>
  C7.  The slice expression \<open>data[35:43]\<close> is the only check of the input length, and Go
  bounds it by the capacity: a slice of length 10 and capacity 64 passes it.  For variant 1
  the call then returns a digest, with a tweak read from the backing array beyond the
  length of the slice, where the documentation of \<open>Sum\<close> promises a panic.
\<close>

theorem variant1_short_slice_no_panic:
  "\<forall>P. slice_wf \<lparr>elems = replicate 64 0, slice_len = 10\<rparr> \<and>
       slice_len \<lparr>elems = replicate 64 0, slice_len = 10\<rparr> < 43 \<and>
       (\<exists>d. Sum P \<lparr>elems = replicate 64 0, slice_len = 10\<rparr> 1 = Some d) \<and>
       (\<exists>d c'. Cache_Sum P zero_cache \<lparr>elems = replicate 64 0, slice_len = 10\<rparr> 1 =
                  Some (d, c'))"
proof
  fix P
  have "(1::int) = 1 \<longrightarrow> 43 \<le> cap \<lparr>elems = replicate 64 0, slice_len = 10\<rparr>"
    by (simp add: cap_def)
  from Cache_Sum_total[OF cache_ok_zero this, of P]
  show "slice_wf \<lparr>elems = replicate 64 0, slice_len = 10\<rparr> \<and>
       slice_len \<lparr>elems = replicate 64 0, slice_len = 10\<rparr> < 43 \<and>
       (\<exists>d. Sum P \<lparr>elems = replicate 64 0, slice_len = 10\<rparr> 1 = Some d) \<and>
       (\<exists>d c'. Cache_Sum P zero_cache \<lparr>elems = replicate 64 0, slice_len = 10\<rparr> 1 =
                  Some (d, c'))"
    unfolding Sum_def by (auto simp add: slice_wf_def cap_def)
qed

text \<open>
  C8.  On every call that does not panic, the digest is the finalist selected by
  \<open>finalState[0] & 0x03\<close> of the state after the last permutation (0 BLAKE-256,
  1 Groestl-256, 2 JH-256, 3 Skein-256), applied to the 200 bytes of the 25 lanes in
  little-endian order: byte \<open>8 * i + k\<close> is byte \<open>k\<close> of lane \<open>i\<close>.  The digest has 32
  bytes when the finalists return 32 bytes.
\<close>

theorem finalist_dispatch:
  assumes "cache_ok c" "variant = 1 \<longrightarrow> 43 \<le> cap data"
  shows "\<exists>d c'. Cache_Sum P c data variant = Some (d, c') \<and>
           (let sel = finalState c' 0 AND 0x03; bytes = U64_U8 (finalState c') 0 25
            in d = (if sel = 0 then blake256 P bytes
                    else if sel = 1 then groestl256 P bytes
                    else if sel = 2 then jh256 P bytes
                    else skein256 P bytes) \<and>
               (sel = 0 \<or> sel = 1 \<or> sel = 2 \<or> sel = 3) \<and>
               length bytes = 200 \<and>
               (\<forall>i < 25. \<forall>k < 8. bytes ! (8 * i + k) = ucast (drop_bit (8 * k) (finalState c' i))) \<and>
               (finalists_32 P \<longrightarrow> length d = 32))"
proof -
  obtain d c' where s: "Cache_Sum P c data variant = Some (d, c')"
    using Cache_Sum_total[OF assms, of P] by blast
  note dg = Cache_Sum_digest[OF s]
  have "d = (if finalState c' 0 AND 0x03 = 0 then blake256 P (U64_U8 (finalState c') 0 25)
             else if finalState c' 0 AND 0x03 = 1 then groestl256 P (U64_U8 (finalState c') 0 25)
             else if finalState c' 0 AND 0x03 = 2 then jh256 P (U64_U8 (finalState c') 0 25)
             else skein256 P (U64_U8 (finalState c') 0 25))"
    using dg by (simp add: finalist_def)
  moreover have "finalists_32 P \<longrightarrow> length d = 32"
    using Cache_Sum_length[OF s] by blast
  ultimately show ?thesis
    using s and_3_cases[of "finalState c' 0"]
    by (simp add: Let_def length_U64_U8 U64_U8_nth)
qed

theorem finalist_dispatch_witness:
  "cache_ok zero_cache \<and>
   43 \<le> cap \<lparr>elems = replicate 43 0, slice_len = 43\<rparr> \<and>
   finalists_32 null_prims \<and>
   (\<exists>d c'. Cache_Sum null_prims zero_cache \<lparr>elems = replicate 43 0, slice_len = 43\<rparr> 1 =
              Some (d, c') \<and>
      length d = 32 \<and> length (U64_U8 (finalState c') 0 25) = 200)"
proof -
  have ok: "cache_ok zero_cache"
    by (simp add: cache_ok_def zero_cache_def)
  have c: "43 \<le> cap \<lparr>elems = replicate 43 (0::u8), slice_len = 43\<rparr>"
    by (simp add: cap_def)
  then have pre: "(1::int) = 1 \<longrightarrow> 43 \<le> cap \<lparr>elems = replicate 43 (0::u8), slice_len = 43\<rparr>"
    by simp
  have f: "finalists_32 null_prims"
    by (simp add: finalists_32_def null_prims_def)
  from finalist_dispatch[OF ok pre, of null_prims] ok f c show ?thesis
    by (auto simp add: Let_def)
qed

text \<open>
  C9.  Every variant other than 1 and 2 (negative ones and those above 2 included) runs
  the variant-0 algorithm: \<open>Sum(data, v) = Sum(data, 0)\<close>, without a failure, and the
  digest has 32 bytes when the finalists return 32 bytes.
\<close>

theorem other_variants_run_variant_0:
  assumes "variant \<noteq> 1" "variant \<noteq> 2"
  shows "Cache_Sum P c data variant = Cache_Sum P c data 0 \<and>
         Sum P data variant = Sum P data 0 \<and>
         (\<exists>d. Sum P data variant = Some d \<and> (finalists_32 P \<longrightarrow> length d = 32)) \<and>
         (cache_ok c \<longrightarrow>
            (\<exists>d c'. Cache_Sum P c data variant = Some (d, c') \<and>
               (finalists_32 P \<longrightarrow> length d = 32)))"
proof -
  have pre: "variant = 1 \<longrightarrow> 43 \<le> cap data" using assms by simp
  have eq: "Cache_Sum P c' data variant = Cache_Sum P c' data 0" for c'
    by (rule Cache_Sum_other[OF assms])
  have tot: "\<exists>d c''. Cache_Sum P c' data variant = Some (d, c'') \<and>
               (finalists_32 P \<longrightarrow> length d = 32)" if "cache_ok c'" for c'
    using Cache_Sum_total[OF that pre, of P] Cache_Sum_length[of P c' data variant] by blast
  from tot[OF cache_ok_zero] have "\<exists>d. Sum P data variant = Some d \<and>
      (finalists_32 P \<longrightarrow> length d = 32)"
    unfolding Sum_def by auto
  with eq tot show ?thesis
    unfolding Sum_def by simp
qed

theorem other_variants_run_variant_0_witness:
  "(- 1 :: int) \<noteq> 1 \<and> (- 1 :: int) \<noteq> 2 \<and> finalists_32 null_prims \<and> cache_ok zero_cache \<and>
   Sum null_prims \<lparr>elems = [], slice_len = 0\<rparr> (- 1) =
     Sum null_prims \<lparr>elems = [], slice_len = 0\<rparr> 0 \<and>
   (\<exists>d. Sum null_prims \<lparr>elems = [], slice_len = 0\<rparr> (- 1) = Some d \<and> length d = 32)"
proof -
  have ok: "cache_ok zero_cache"
    by (simp add: cache_ok_def zero_cache_def)
  have f: "finalists_32 null_prims"
    by (simp add: finalists_32_def null_prims_def)
  have n: "(- 1 :: int) \<noteq> 1" "(- 1 :: int) \<noteq> 2" by simp_all
  from other_variants_run_variant_0[OF n, of null_prims zero_cache
      "\<lparr>elems = [], slice_len = 0\<rparr>"] ok f n
  show ?thesis by blast
qed

text \<open>
  C10. The divisor of the variant-2 step, \<open>(b[0] & 0xffffffff) | 0x80000001\<close>, is at least
  \<open>0x80000001\<close> and so never zero: the division and the modulo never panic.
\<close>

theorem variant2_divisor_nonzero:
  "(0x80000001::u64) \<le> (fst b AND 0xffffffff) OR 0x80000001 \<and>
   (fst b AND 0xffffffff) OR 0x80000001 \<noteq> 0 \<and>
   variant2_arith b c dr sr \<noteq> None"
  using divisor_ge[of "fst b"] divisor_nonzero[of "fst b"] variant2_arith_Some[of b c dr sr]
  by simp

end
